theory Spec2Isabelle
  imports Main "HOL-Library.AList"
begin

section \<open>Clauses\<close>

text \<open>
  A \<open>Clause\<close> object of \<^verbatim>\<open>clause.py\<close>. The class defines neither \<^verbatim>\<open>__eq__\<close> nor
  \<^verbatim>\<open>__hash__\<close>, so Python compares and hashes clauses by object identity: two clauses
  with the same premises and conclusion are different dictionary keys, and one clause
  object stored twice is the same key. The field \<open>oid\<close> is that identity; two records
  are the same object exactly when they are equal.

  Symbols are any hashable Python value; the type variable \<open>'a\<close> stands for them.
\<close>

record 'a Clause =
  oid :: nat
  premise_literals :: "'a list"
  conclusion_literal :: 'a
  known_count :: int

text \<open>\<^verbatim>\<open>Clause.__init__\<close>; the first argument is the identity of the new object.\<close>

definition Clause_init :: "nat \<Rightarrow> 'a list \<Rightarrow> 'a \<Rightarrow> 'a Clause" where
  "Clause_init new_id prem concl =
     \<lparr>oid = new_id, premise_literals = prem, conclusion_literal = concl, known_count = 0\<rparr>"

text \<open>\<^verbatim>\<open>Clause.increment_known_count\<close>: the updated clause and the returned flag.\<close>

definition increment_known_count :: "'a Clause \<Rightarrow> 'a Clause \<times> bool" where
  "increment_known_count self =
     (let self' = self\<lparr>known_count := known_count self + 1\<rparr>
      in (self', known_count self' \<ge> int (length (premise_literals self'))))"

definition is_fact :: "'a Clause \<Rightarrow> bool" where
  "is_fact self = (length (premise_literals self) = 0)"

subsection \<open>Parsing\<close>

text \<open>
  Strings are lists of characters, one \<open>char\<close> per Python code point below 256.
  \<open>isspace\<close> is the whitespace test of \<^verbatim>\<open>str.strip()\<close> and \<^verbatim>\<open>str.split()\<close> on
  that range: tab to carriage return, the four separators 28 to 31, the space, and the
  two Latin-1 blanks 133 and 160.
\<close>

definition isspace :: "char \<Rightarrow> bool" where
  "isspace c = (of_char c \<in> {9, 10, 11, 12, 13, 28, 29, 30, 31, 32, 133, 160 :: nat})"

definition strip :: "string \<Rightarrow> string" where
  "strip s = rev (dropWhile isspace (rev (dropWhile isspace s)))"

text \<open>
  \<^verbatim>\<open>str.split()\<close> without a separator: skip a run of whitespace, take the run of other
  characters as one token, repeat. No token is empty.
\<close>

function split :: "string \<Rightarrow> string list" where
  "split s =
     (case dropWhile isspace s of
        [] \<Rightarrow> []
      | c # cs \<Rightarrow> takeWhile (\<lambda>x. \<not> isspace x) (c # cs)
                 # split (dropWhile (\<lambda>x. \<not> isspace x) (c # cs)))"
  by pat_completeness auto
termination
proof (relation "measure length")
  show "wf (measure length)" by simp
next
  fix s :: string and c cs
  assume d: "dropWhile isspace s = c # cs"
  have c: "\<not> isspace c"
    using d by (metis hd_dropWhile list.sel(1) list.distinct(1))
  have "length (dropWhile (\<lambda>x. \<not> isspace x) cs) \<le> length cs"
    by (rule length_dropWhile_le)
  moreover have "length (dropWhile isspace s) \<le> length s"
    by (rule length_dropWhile_le)
  ultimately show "(dropWhile (\<lambda>x. \<not> isspace x) (c # cs), s) \<in> measure length"
    using d c by simp
qed

declare split.simps [simp del]

definition startswith_dash :: "string \<Rightarrow> bool" where
  "startswith_dash literal = (case literal of [] \<Rightarrow> False | c # _ \<Rightarrow> c = CHR ''-'')"

datatype parse_error = ValueError

text \<open>
  The values \<^verbatim>\<open>from_string\<close> stores in a clause are strings or \<^verbatim>\<open>None\<close>
  (the initial value of \<^verbatim>\<open>conclusion_literal\<close>): \<open>Some s\<close> is the string \<open>s\<close>.
\<close>

type_synonym pysym = "string option"

text \<open>
  The \<^verbatim>\<open>for literal in literals\<close> loop of \<^verbatim>\<open>from_string\<close>: the premises collected so
  far are the accumulator, the \<^verbatim>\<open>break\<close> is the branch that does not recurse.
\<close>

fun scan_literals :: "string list \<Rightarrow> pysym list \<Rightarrow> pysym list \<times> pysym" where
  "scan_literals [] prem = (prem, None)"
| "scan_literals (literal # rest) prem =
     (if startswith_dash literal
      then scan_literals rest (prem @ [Some (drop 1 literal)])
      else (prem, Some literal))"

definition from_string :: "nat \<Rightarrow> string \<Rightarrow> parse_error + pysym Clause" where
  "from_string new_id clause_str =
     (let literals = split (strip clause_str) in
      case scan_literals literals [] of
        (prem, concl) \<Rightarrow>
          if concl = None \<and> literals \<noteq> [] then
            (if length literals = 1 \<and> \<not> startswith_dash (literals ! 0)
             then Inr (Clause_init new_id [] (Some (literals ! 0)))
             else Inl ValueError)
          else Inr (Clause_init new_id prem concl))"

section \<open>The knowledge base\<close>

text \<open>
  \<^verbatim>\<open>clauses_by_premise\<close> is a \<^verbatim>\<open>defaultdict(list)\<close>: a finite dictionary, here an
  association list in insertion order of the keys. \<^verbatim>\<open>facts\<close> is a Python \<^verbatim>\<open>set\<close>.
\<close>

record 'a KnowledgeBase =
  clauses :: "'a Clause list"
  clauses_by_premise :: "('a \<times> 'a Clause list) list"
  facts :: "'a set"

definition KnowledgeBase_init :: "'a KnowledgeBase" where
  "KnowledgeBase_init = \<lparr>clauses = [], clauses_by_premise = [], facts = {}\<rparr>"

text \<open>\<^verbatim>\<open>self.clauses_by_premise[literal].append(clause)\<close>: a missing key starts from \<^verbatim>\<open>[]\<close>.\<close>

definition index_append ::
  "'a Clause \<Rightarrow> 'a \<Rightarrow> ('a \<times> 'a Clause list) list \<Rightarrow> ('a \<times> 'a Clause list) list" where
  "index_append clause literal idx =
     AList.update literal
       ((case map_of idx literal of None \<Rightarrow> [] | Some bucket \<Rightarrow> bucket) @ [clause]) idx"

definition add_clause :: "'a KnowledgeBase \<Rightarrow> 'a Clause \<Rightarrow> 'a KnowledgeBase" where
  "add_clause self clause =
     (let s1 = self\<lparr>clauses := clauses self @ [clause]\<rparr>;
          s2 = (if is_fact clause
                then s1\<lparr>facts := insert (conclusion_literal clause) (facts s1)\<rparr>
                else s1)
      in s2\<lparr>clauses_by_premise :=
              fold (index_append clause) (premise_literals clause) (clauses_by_premise s2)\<rparr>)"

definition get_facts :: "'a KnowledgeBase \<Rightarrow> 'a set" where
  "get_facts self = facts self"

text \<open>
  \<^verbatim>\<open>clauses_by_premise.get(symbol, [])\<close>: unlike indexing, \<^verbatim>\<open>get\<close> does not create
  the missing key, so the lookup leaves the knowledge base as it is.
\<close>

definition get_clauses_with_premise :: "'a KnowledgeBase \<Rightarrow> 'a \<Rightarrow> 'a Clause list" where
  "get_clauses_with_premise self symbol =
     (case map_of (clauses_by_premise self) symbol of None \<Rightarrow> [] | Some bucket \<Rightarrow> bucket)"

text \<open>The knowledge base reached by inserting the clauses \<open>cs\<close>, in order, into a new one.\<close>

definition kb_of :: "'a Clause list \<Rightarrow> 'a KnowledgeBase" where
  "kb_of cs = foldl add_clause KnowledgeBase_init cs"

section \<open>Forward chaining\<close>

text \<open>
  The only exception the loop of \<^verbatim>\<open>forward_chaining\<close> can raise: \<^verbatim>\<open>count[clause]\<close>
  for a clause that is not a key of \<^verbatim>\<open>count\<close>.
\<close>

datatype fc_error = KeyError

text \<open>
  The variables of one run. \<^verbatim>\<open>count\<close> is a dictionary keyed by clause objects,
  \<^verbatim>\<open>inferred\<close> a \<^verbatim>\<open>defaultdict(bool)\<close>; both are association lists in insertion order.
  The knowledge base is part of the state, so that what a run does to it can be stated.
\<close>

record 'a fc_state =
  kb :: "'a KnowledgeBase"
  count :: "('a Clause \<times> int) list"
  inferred :: "('a \<times> bool) list"
  agenda :: "'a list"
  inference_path :: "'a list"

type_synonym 'a fc_result = "'a KnowledgeBase \<times> (fc_error + bool \<times> 'a list)"

text \<open>\<^verbatim>\<open>{clause: len(clause.premise_literals) for clause in kb.clauses}\<close>\<close>

definition init_count :: "'a Clause list \<Rightarrow> ('a Clause \<times> int) list" where
  "init_count cs =
     fold (\<lambda>clause d. AList.update clause (int (length (premise_literals clause))) d) cs []"

text \<open>
  Reading \<^verbatim>\<open>inferred[p]\<close>: a \<^verbatim>\<open>defaultdict(bool)\<close> stores \<^verbatim>\<open>False\<close> under a missing key
  before returning it.
\<close>

definition inferred_get :: "('a \<times> bool) list \<Rightarrow> 'a \<Rightarrow> bool \<times> ('a \<times> bool) list" where
  "inferred_get d p =
     (case map_of d p of Some v \<Rightarrow> (v, d) | None \<Rightarrow> (False, d @ [(p, False)]))"

text \<open>
  The \<^verbatim>\<open>for clause in kb.get_clauses_with_premise(p)\<close> loop: decrement the clause's
  count and, when it is then exactly 0, append the conclusion to the agenda.
\<close>

fun process_clauses ::
  "'a Clause list \<Rightarrow> ('a Clause \<times> int) list \<Rightarrow> 'a list
     \<Rightarrow> fc_error + ('a Clause \<times> int) list \<times> 'a list" where
  "process_clauses [] cnt ag = Inr (cnt, ag)"
| "process_clauses (clause # rest) cnt ag =
     (case map_of cnt clause of
        None \<Rightarrow> Inl KeyError
      | Some n \<Rightarrow>
          let cnt' = AList.update clause (n - 1) cnt;
              ag' = (if n - 1 = 0 then ag @ [conclusion_literal clause] else ag)
          in process_clauses rest cnt' ag')"

text \<open>
  One iteration of \<^verbatim>\<open>while agenda:\<close>, from the test of the loop condition to the end of
  the body: either the run is over (\<open>Inl\<close>: a \<^verbatim>\<open>return\<close> or an exception) or it goes on
  from the new state (\<open>Inr\<close>).
\<close>

definition fc_step :: "'a \<Rightarrow> 'a fc_state \<Rightarrow> 'a fc_result + 'a fc_state" where
  "fc_step query s =
     (case agenda s of
        [] \<Rightarrow> Inl (kb s, Inr (False, inference_path s))
      | p # rest \<Rightarrow>
          if p = query then Inl (kb s, Inr (True, inference_path s @ [p]))
          else
            (case inferred_get (inferred s) p of
               (v, inf1) \<Rightarrow>
                 if \<not> v then
                   (case process_clauses (get_clauses_with_premise (kb s) p) (count s) rest of
                      Inl e \<Rightarrow> Inl (kb s, Inl e)
                    | Inr (cnt', ag') \<Rightarrow>
                        Inr (s\<lparr>count := cnt', inferred := AList.update p True inf1,
                               agenda := ag', inference_path := inference_path s @ [p]\<rparr>))
                 else Inr (s\<lparr>inferred := inf1, agenda := rest\<rparr>)))"

text \<open>The symbols \<^verbatim>\<open>inferred\<close> maps to \<^verbatim>\<open>True\<close>.\<close>

definition inferred_true :: "('a \<times> bool) list \<Rightarrow> 'a set" where
  "inferred_true d = {p. map_of d p = Some True}"

text \<open>
  The quantity that shrinks with every iteration: the keys of the premise index not yet
  inferred, then the length of the agenda.
\<close>

definition fc_measure :: "'a fc_state \<Rightarrow> nat \<times> nat" where
  "fc_measure s =
     (card (fst ` set (clauses_by_premise (kb s)) - inferred_true (inferred s)),
      length (agenda s))"

lemma inferred_true_get:
  "inferred_get d p = (v, d') \<Longrightarrow> inferred_true d' = inferred_true d \<and> v = (p \<in> inferred_true d)"
  by (auto simp: inferred_get_def inferred_true_def map_add_def split: option.splits if_splits)

lemma inferred_true_update:
  "inferred_true (AList.update p True d) = insert p (inferred_true d)"
  by (auto simp: inferred_true_def update_conv')

lemma fc_step_kb: "fc_step query s = Inr s' \<Longrightarrow> kb s' = kb s"
  by (auto simp: fc_step_def split: list.splits if_splits prod.splits sum.splits)

lemma fc_step_decreases:
  assumes "fc_step query s = Inr s'"
  shows "(fc_measure s', fc_measure s) \<in> less_than <*lex*> less_than"
proof -
  obtain p rest where ag: "agenda s = p # rest"
    using assms by (cases "agenda s") (auto simp: fc_step_def)
  obtain v inf1 where g: "inferred_get (inferred s) p = (v, inf1)"
    by (cases "inferred_get (inferred s) p")
  note ig = inferred_true_get [OF g]
  let ?K = "fst ` set (clauses_by_premise (kb s))"
  have k: "kb s' = kb s" using assms by (rule fc_step_kb)
  show ?thesis
  proof (cases v)
    case True
    then have "s' = s\<lparr>inferred := inf1, agenda := rest\<rparr>"
      using assms ag g by (auto simp: fc_step_def split: if_splits)
    then show ?thesis using ig ag by (simp add: fc_measure_def)
  next
    case False
    then obtain cnt' ag' where
      pc: "process_clauses (get_clauses_with_premise (kb s) p) (count s) rest = Inr (cnt', ag')"
      and s': "s' = s\<lparr>count := cnt', inferred := AList.update p True inf1,
                       agenda := ag', inference_path := inference_path s @ [p]\<rparr>"
      using assms ag g by (auto simp: fc_step_def split: if_splits sum.splits)
    have it: "inferred_true (inferred s') = insert p (inferred_true (inferred s))"
      using s' ig by (simp add: inferred_true_update)
    show ?thesis
    proof (cases "p \<in> ?K")
      case True
      have "p \<notin> inferred_true (inferred s)" using ig False by simp
      then have "?K - inferred_true (inferred s') \<subset> ?K - inferred_true (inferred s)"
        using True it by auto
      then have "card (?K - inferred_true (inferred s')) < card (?K - inferred_true (inferred s))"
        by (intro psubset_card_mono) auto
      then show ?thesis using k by (simp add: fc_measure_def)
    next
      case False
      then have "map_of (clauses_by_premise (kb s)) p = None"
        by (simp add: map_of_eq_None_iff)
      then have "ag' = rest" using pc by (simp add: get_clauses_with_premise_def)
      moreover have "?K - inferred_true (inferred s') = ?K - inferred_true (inferred s)"
        using False it by auto
      ultimately show ?thesis using k s' ag by (simp add: fc_measure_def)
    qed
  qed
qed

text \<open>
  The \<^verbatim>\<open>while agenda:\<close> loop. Every iteration that goes on makes \<open>fc_measure\<close>
  smaller in the lexicographic order, for any state whatever, so the recursion is total.
\<close>

function fc_loop :: "'a \<Rightarrow> 'a fc_state \<Rightarrow> 'a fc_result" where
  "fc_loop query s =
     (case fc_step query s of Inl r \<Rightarrow> r | Inr s' \<Rightarrow> fc_loop query s')"
  by pat_completeness auto
termination
  by (relation "inv_image (less_than <*lex*> less_than) (\<lambda>(q, s). fc_measure s)")
     (auto dest: fc_step_decreases)

declare fc_loop.simps [simp del]

text \<open>
  The state at the head of the loop. \<^verbatim>\<open>deque(kb.get_facts())\<close> enumerates a Python
  set, whose order the language leaves open: \<open>fact_order\<close> is the order in which this
  run enumerates it.
\<close>

definition fc_init :: "'a KnowledgeBase \<Rightarrow> 'a list \<Rightarrow> 'a fc_state" where
  "fc_init K fact_order =
     \<lparr>kb = K, count = init_count (clauses K), inferred = [],
      agenda = fact_order, inference_path = []\<rparr>"

definition forward_chaining :: "'a KnowledgeBase \<Rightarrow> 'a list \<Rightarrow> 'a \<Rightarrow> 'a fc_result" where
  "forward_chaining K fact_order query = fc_loop query (fc_init K fact_order)"

text \<open>\<open>xs\<close> is an enumeration of the set \<open>S\<close>: every member once.\<close>

definition enumerates :: "'a list \<Rightarrow> 'a set \<Rightarrow> bool" where
  "enumerates xs S = (distinct xs \<and> set xs = S)"

text \<open>The same loop cut off after \<open>n\<close> iterations: \<open>None\<close> when it has not returned by then.\<close>

fun fc_iterate :: "nat \<Rightarrow> 'a \<Rightarrow> 'a fc_state \<Rightarrow> 'a fc_result option" where
  "fc_iterate 0 query s = None"
| "fc_iterate (Suc n) query s =
     (case fc_step query s of Inl r \<Rightarrow> Some r | Inr s' \<Rightarrow> fc_iterate n query s')"

section \<open>Properties of the parser\<close>

lemma split_Nil_iff: "split s = [] \<longleftrightarrow> (\<forall>c\<in>set s. isspace c)"
proof -
  have "split s = [] \<longleftrightarrow> dropWhile isspace s = []"
    by (subst split.simps) (simp del: dropWhile_eq_Nil_conv split: list.splits)
  then show ?thesis by simp
qed

lemma split_dropWhile: "split (dropWhile isspace s) = split s"
  by (subst split.simps, subst (2) split.simps) simp

lemma split_unfold:
  "dropWhile isspace s = c # cs \<Longrightarrow>
   split s = takeWhile (\<lambda>x. \<not> isspace x) (c # cs)
             # split (dropWhile (\<lambda>x. \<not> isspace x) (c # cs))"
  by (subst split.simps) simp

lemma split_append_spaces:
  "\<forall>c\<in>set ws. isspace c \<Longrightarrow> split (s @ ws) = split s"
proof (induction s rule: split.induct)
  case (1 s)
  show ?case
  proof (cases "dropWhile isspace s")
    case Nil
    then have "\<forall>c\<in>set (s @ ws). isspace c"
      using "1.prems" by auto
    then have "split (s @ ws) = []" by (simp only: split_Nil_iff)
    moreover have "split s = []" using Nil by (simp add: split_Nil_iff)
    ultimately show ?thesis by simp
  next
    case (Cons c cs)
    then obtain x where "x \<in> set s" "\<not> isspace x"
      by (metis dropWhile_eq_Nil_conv list.distinct(1))
    then have "dropWhile isspace (s @ ws) = dropWhile isspace s @ ws"
      by (rule dropWhile_append1)
    then have d: "dropWhile isspace (s @ ws) = (c # cs) @ ws"
      using Cons by simp
    let ?P = "\<lambda>x. \<not> isspace x"
    have l: "split (s @ ws) = takeWhile ?P ((c # cs) @ ws) # split (dropWhile ?P ((c # cs) @ ws))"
      using split_unfold [of "s @ ws" c "cs @ ws"] d by simp
    have r: "split s = takeWhile ?P (c # cs) # split (dropWhile ?P (c # cs))"
      using Cons by (rule split_unfold)
    show ?thesis
    proof (cases "\<forall>x\<in>set (c # cs). ?P x")
      case True
      have tw: "takeWhile ?P ws = []" and dw: "dropWhile ?P ws = ws"
        using "1.prems" by (cases ws; simp)+
      have "takeWhile ?P ((c # cs) @ ws) = (c # cs) @ takeWhile ?P ws"
        using True by (intro takeWhile_append2) blast
      then have t: "takeWhile ?P ((c # cs) @ ws) = c # cs"
        using tw by simp
      have "dropWhile ?P ((c # cs) @ ws) = dropWhile ?P ws"
        using True by (intro dropWhile_append2) blast
      then have dr: "dropWhile ?P ((c # cs) @ ws) = ws"
        using dw by simp
      have t2: "takeWhile ?P (c # cs) = c # cs"
        using True by (simp only: takeWhile_eq_all_conv)
      have dr2: "dropWhile ?P (c # cs) = []"
        using True by (simp only: dropWhile_eq_Nil_conv)
      have "split ws = []" using "1.prems" by (simp only: split_Nil_iff)
      moreover have "split [] = []" by (simp add: split_Nil_iff)
      ultimately show ?thesis
        by (simp only: l r t dr t2 dr2)
    next
      case False
      then obtain y where y: "y \<in> set (c # cs)" "\<not> ?P y" by blast
      then have t: "takeWhile ?P ((c # cs) @ ws) = takeWhile ?P (c # cs)"
        by (rule takeWhile_append1)
      from y have dr: "dropWhile ?P ((c # cs) @ ws) = dropWhile ?P (c # cs) @ ws"
        by (rule dropWhile_append1)
      have "split (dropWhile ?P (c # cs) @ ws) = split (dropWhile ?P (c # cs))"
        using "1.IH"[OF Cons "1.prems"] .
      then show ?thesis
        by (simp only: l r t dr)
    qed
  qed
qed

lemma split_strip: "split (strip s) = split s"
proof -
  let ?t = "dropWhile isspace s"
  have "?t = rev (dropWhile isspace (rev ?t)) @ rev (takeWhile isspace (rev ?t))"
    by (metis rev_append rev_rev_ident takeWhile_dropWhile_id)
  moreover have "\<forall>c\<in>set (rev (takeWhile isspace (rev ?t))). isspace c"
    by (auto dest: set_takeWhileD)
  ultimately have "split ?t = split (rev (dropWhile isspace (rev ?t)))"
    by (metis split_append_spaces)
  then show ?thesis by (simp add: strip_def split_dropWhile)
qed

lemma scan_literals_eq:
  "scan_literals ls prem =
     (prem @ map (\<lambda>t. Some (drop 1 t)) (takeWhile startswith_dash ls),
      case dropWhile startswith_dash ls of [] \<Rightarrow> None | t # _ \<Rightarrow> Some t)"
  by (induction ls arbitrary: prem) auto

lemma from_string_unfold:
  "from_string i s =
     (if split s \<noteq> [] \<and> dropWhile startswith_dash (split s) = []
      then (if length (split s) = 1 \<and> \<not> startswith_dash (split s ! 0)
            then Inr (Clause_init i [] (Some (split s ! 0)))
            else Inl ValueError)
      else Inr (Clause_init i
             (map (\<lambda>t. Some (drop 1 t)) (takeWhile startswith_dash (split s)))
             (case dropWhile startswith_dash (split s) of [] \<Rightarrow> None | t # _ \<Rightarrow> Some t)))"
proof (cases "dropWhile startswith_dash (split s)")
  case Nil
  then show ?thesis
    by (simp add: from_string_def split_strip scan_literals_eq Let_def
             del: dropWhile_eq_Nil_conv)
next
  case (Cons t rest)
  then show ?thesis
    by (simp add: from_string_def split_strip scan_literals_eq Let_def
             del: dropWhile_eq_Nil_conv)
qed



text \<open>
  C6. \<open>from_string\<close> raises \<open>ValueError\<close> exactly when the input has at least one token
  and every token starts with \<open>-\<close>; in particular it does not raise when some token
  does not start with \<open>-\<close>.
\<close>

theorem from_string_raises_iff:
  "from_string i s = Inl ValueError \<longleftrightarrow>
     split s \<noteq> [] \<and> (\<forall>t\<in>set (split s). startswith_dash t)"
proof (cases "split s \<noteq> [] \<and> (\<forall>t\<in>set (split s). startswith_dash t)")
  case True
  then have d: "dropWhile startswith_dash (split s) = []" by simp
  from True have "split s ! 0 \<in> set (split s)" by simp
  with True have "startswith_dash (split s ! 0)" by blast
  with True d show ?thesis by (simp only: from_string_unfold) simp
next
  case False
  then have "\<not> (split s \<noteq> [] \<and> dropWhile startswith_dash (split s) = [])"
    by simp
  then have "\<exists>c. from_string i s = Inr c"
    by (simp only: from_string_unfold if_False) simp
  with False show ?thesis by auto
qed

theorem from_string_raises_iff_witness:
  "from_string 0 ''-a -b -c'' = Inl ValueError \<and> from_string 0 ''-a -b c'' \<noteq> Inl ValueError"
  using from_string_raises_iff [of 0 "''-a -b -c''"] from_string_raises_iff [of 0 "''-a -b c''"]
  by (simp add: split.simps isspace_def startswith_dash_def)

text \<open>
  C10. On an input that is empty or holds only whitespace, \<open>from_string\<close> does not raise:
  it returns a clause with no premises whose conclusion is \<open>None\<close>.
\<close>

theorem from_string_blank:
  assumes "\<forall>c\<in>set s. isspace c"
  shows "from_string i s = Inr (Clause_init i [] None)"
proof -
  from assms have "split s = []" by (simp only: split_Nil_iff)
  then show ?thesis by (simp add: from_string_unfold)
qed

theorem from_string_blank_witness:
  "from_string 0 '''' = Inr (Clause_init 0 [] None)
   \<and> from_string 0 ''   '' = Inr (Clause_init 0 [] None)"
  using from_string_blank [of "''''" 0] from_string_blank [of "''   ''" 0]
  by (simp add: isspace_def)

section \<open>Properties of the knowledge base\<close>

lemma kb_of_snoc: "kb_of (cs @ [c]) = add_clause (kb_of cs) c"
  by (simp add: kb_of_def)

lemma kb_of_Nil: "kb_of [] = KnowledgeBase_init"
  by (simp add: kb_of_def)

lemma clauses_add_clause: "clauses (add_clause K c) = clauses K @ [c]"
  by (simp add: add_clause_def Let_def)

lemma facts_add_clause:
  "facts (add_clause K c) = (if is_fact c then insert (conclusion_literal c) (facts K) else facts K)"
  by (simp add: add_clause_def Let_def)

lemma index_add_clause:
  "clauses_by_premise (add_clause K c)
     = fold (index_append c) (premise_literals c) (clauses_by_premise K)"
  by (simp add: add_clause_def Let_def)

text \<open>The list an index holds under a key, empty when the key is missing.\<close>

definition bucket_of :: "('a \<times> 'a Clause list) list \<Rightarrow> 'a \<Rightarrow> 'a Clause list" where
  "bucket_of idx p = (case map_of idx p of None \<Rightarrow> [] | Some b \<Rightarrow> b)"

lemma bucket_index_append:
  "bucket_of (index_append c l idx) p = bucket_of idx p @ (if l = p then [c] else [])"
  by (simp add: bucket_of_def index_append_def update_conv')

lemma bucket_fold_index_append:
  "bucket_of (fold (index_append c) ls idx) p
     = bucket_of idx p @ map (\<lambda>_. c) (filter (\<lambda>l. l = p) ls)"
  by (induction ls arbitrary: idx) (simp_all add: bucket_index_append)

lemma get_clauses_add_clause:
  "get_clauses_with_premise (add_clause K c) p
     = get_clauses_with_premise K p @ map (\<lambda>_. c) (filter (\<lambda>l. l = p) (premise_literals c))"
  using bucket_fold_index_append [of c "premise_literals c" "clauses_by_premise K" p]
  by (simp add: get_clauses_with_premise_def bucket_of_def index_add_clause)

lemma clauses_kb_of: "clauses (kb_of cs) = cs"
  by (induction cs rule: rev_induct)
     (simp_all add: kb_of_Nil KnowledgeBase_init_def kb_of_snoc clauses_add_clause)

lemma facts_kb_of: "facts (kb_of cs) = conclusion_literal ` {c \<in> set cs. is_fact c}"
  by (induction cs rule: rev_induct)
     (auto simp: kb_of_Nil KnowledgeBase_init_def kb_of_snoc facts_add_clause)

text \<open>
  The bucket of \<open>p\<close> holds every inserted clause once for each occurrence of \<open>p\<close> among
  its premises, in insertion order.
\<close>

lemma get_clauses_kb_of:
  "get_clauses_with_premise (kb_of cs) p
     = concat (map (\<lambda>c. map (\<lambda>_. c) (filter (\<lambda>l. l = p) (premise_literals c))) cs)"
proof (induction cs rule: rev_induct)
  case Nil
  show ?case
    by (simp add: kb_of_Nil KnowledgeBase_init_def get_clauses_with_premise_def)
next
  case (snoc c cs)
  then show ?case
    by (simp add: kb_of_snoc get_clauses_add_clause)
qed

text \<open>
  C7, as the code has it. After any sequence of insertions into a new knowledge base,
  every clause of the clause list is in the bucket of each of its premise symbols, and the
  facts set is exactly the set of conclusions of the clauses without premises: a clause
  without premises has its conclusion in the set, and every member of the set is the
  conclusion of some clause without premises.
\<close>

theorem kb_invariant:
  "(\<forall>c\<in>set (clauses (kb_of cs)). \<forall>l\<in>set (premise_literals c).
       c \<in> set (get_clauses_with_premise (kb_of cs) l))
   \<and> facts (kb_of cs) = conclusion_literal ` {c \<in> set (clauses (kb_of cs)). is_fact c}"
  by (auto simp: clauses_kb_of facts_kb_of get_clauses_kb_of)

theorem kb_invariant_witness:
  "Clause_init 1 [''a''] ''b'' \<in> set (get_clauses_with_premise
       (kb_of [Clause_init 0 [] ''a'', Clause_init 1 [''a''] ''b'']) ''a'')
   \<and> facts (kb_of [Clause_init 0 [] ''a'', Clause_init 1 [''a''] ''b'']) = {''a''}"
  using kb_invariant [of "[Clause_init 0 [] ''a'', Clause_init 1 [''a''] ''b'']"]
  by (simp add: kb_of_def add_clause_def index_append_def is_fact_def KnowledgeBase_init_def
        Clause_init_def get_clauses_with_premise_def)

text \<open>
  C7 as stated fails from right to left: after inserting the fact \<open>a\<close> and the clause
  \<open>b \<rightarrow> a\<close>, the second clause has a premise, yet its conclusion is in the facts set.
\<close>

theorem fact_iff_counterexample:
  "Clause_init 1 [''b''] ''a''
      \<in> set (clauses (kb_of [Clause_init 0 [] ''a'', Clause_init 1 [''b''] ''a'']))
   \<and> \<not> is_fact (Clause_init 1 [''b''] ''a'')
   \<and> conclusion_literal (Clause_init 1 [''b''] ''a'')
        \<in> facts (kb_of [Clause_init 0 [] ''a'', Clause_init 1 [''b''] ''a''])"
  by (simp add: kb_of_def add_clause_def index_append_def is_fact_def KnowledgeBase_init_def
        Clause_init_def)

section \<open>Properties of a run\<close>

lemma fc_step_Inl_kb: "fc_step q s = Inl r \<Longrightarrow> fst r = kb s"
  by (auto simp: fc_step_def split: list.splits if_splits prod.splits sum.splits)

lemma fc_loop_Inl: "fc_step q s = Inl r \<Longrightarrow> fc_loop q s = r"
  by (subst fc_loop.simps) simp

lemma fc_loop_Inr: "fc_step q s = Inr s' \<Longrightarrow> fc_loop q s = fc_loop q s'"
  by (subst fc_loop.simps) simp

lemma fc_loop_kb: "fst (fc_loop q s) = kb s"
proof (induction q s rule: fc_loop.induct)
  case (1 q s)
  show ?case
  proof (cases "fc_step q s")
    case (Inl r)
    then show ?thesis by (simp add: fc_loop_Inl fc_step_Inl_kb)
  next
    case (Inr s')
    then have "fst (fc_loop q s') = kb s'" by (rule "1.IH")
    with Inr show ?thesis by (simp add: fc_loop_Inr fc_step_kb)
  qed
qed

lemma fc_iterate_total: "\<exists>n. fc_iterate n q s = Some (fc_loop q s)"
proof (induction q s rule: fc_loop.induct)
  case (1 q s)
  show ?case
  proof (cases "fc_step q s")
    case (Inl r)
    then have "fc_iterate (Suc 0) q s = Some (fc_loop q s)"
      by (simp add: fc_loop_Inl)
    then show ?thesis ..
  next
    case (Inr s')
    then obtain n where "fc_iterate n q s' = Some (fc_loop q s')"
      using "1.IH" by blast
    with Inr have "fc_iterate (Suc n) q s = Some (fc_loop q s)"
      by (simp add: fc_loop_Inr)
    then show ?thesis ..
  qed
qed

text \<open>
  C2. For every knowledge base, every enumeration of its facts and every query, the
  loop of \<open>forward_chaining\<close> returns after finitely many iterations: some number \<open>n\<close> of
  iterations is enough for the loop to return, and what it returns is the result of
  \<open>forward_chaining\<close>. Nothing is assumed of the knowledge base, so cyclic clause
  sets are included.
\<close>

theorem forward_chaining_terminates:
  "\<exists>n. fc_iterate n query (fc_init K fact_order) = Some (forward_chaining K fact_order query)"
  unfolding forward_chaining_def by (rule fc_iterate_total)

text \<open>
  C9. The knowledge base a run hands back is the one it was given: clause list (with
  every clause's \<open>known_count\<close>), facts set and premise index are unchanged. A second
  run on it, with the same query, returns what the first returned.
\<close>

theorem forward_chaining_frame:
  "fst (forward_chaining K fact_order query) = K \<and>
   forward_chaining (fst (forward_chaining K fact_order query)) fact_order query
     = forward_chaining K fact_order query"
proof -
  have "fst (forward_chaining K fact_order query) = K"
    by (simp add: forward_chaining_def fc_loop_kb fc_init_def)
  then show ?thesis by simp
qed

subsection \<open>The knowledge base of the test suite\<close>

text \<open>
  \<^verbatim>\<open>setUp\<close> of \<^verbatim>\<open>test_forward_chaining.py\<close>: the fact \<open>a\<close>, then \<open>a \<rightarrow> b\<close>,
  \<open>a \<and> b \<rightarrow> c\<close> and \<open>b \<rightarrow> d\<close>, four clause objects inserted in this order.
\<close>

definition example_kb :: "string KnowledgeBase" where
  "example_kb = kb_of [Clause_init 0 [] ''a'', Clause_init 1 [''a''] ''b'',
                       Clause_init 2 [''a'', ''b''] ''c'', Clause_init 3 [''b''] ''d'']"

lemmas fc_eval = kb_of_def add_clause_def index_append_def is_fact_def KnowledgeBase_init_def
  Clause_init_def fc_init_def init_count_def fc_step_def inferred_get_def
  get_clauses_with_premise_def forward_chaining_def fc_loop.simps enumerates_def

text \<open>
  C4. The only fact is \<open>a\<close>, so the agenda starts as \<open>[a]\<close>. Inferring \<open>b\<close> brings the
  counts of \<open>a \<and> b \<rightarrow> c\<close> and of \<open>b \<rightarrow> d\<close> to 0 in this order (the order of the bucket
  of \<open>b\<close>), so \<open>c\<close> enters the agenda before \<open>d\<close> and is inferred first: the run for
  the query \<open>d\<close> returns the path \<open>a, b, c, d\<close>, not \<open>a, b, d\<close>.
\<close>

theorem forward_chaining_query_d:
  "enumerates [''a''] (facts example_kb)
   \<and> forward_chaining example_kb [''a''] ''d''
       = (example_kb, Inr (True, [''a'', ''b'', ''c'', ''d'']))"
  by (simp add: example_kb_def fc_eval)

subsection \<open>The inner loop\<close>

lemma map_of_init_count_gen:
  "map_of (fold (\<lambda>clause d. AList.update clause (f clause) d) cs d0) c
     = (if c \<in> set cs then Some (f c) else map_of d0 c)"
  by (induction cs arbitrary: d0) (auto simp: update_conv')

lemma map_of_init_count:
  "map_of (init_count cs) c
     = (if c \<in> set cs then Some (int (length (premise_literals c))) else None)"
  by (simp add: init_count_def map_of_init_count_gen)

text \<open>
  What the \<^verbatim>\<open>for\<close> loop over a bucket does, for any list of clauses and any count table:
  each clause loses one count per occurrence in the list, and a conclusion is appended
  to the agenda exactly when a count passes from 1 to 0 on the way.
\<close>

lemma process_clauses_counts:
  "process_clauses xs cnt ag = Inr (cnt', ag') \<Longrightarrow>
   map_of cnt' c = map_option (\<lambda>n. n - int (count_list xs c)) (map_of cnt c)"
proof (induction xs arbitrary: cnt ag)
  case Nil
  then show ?case by (simp add: option.map_ident)
next
  case (Cons x xs)
  from Cons.prems obtain n where n: "map_of cnt x = Some n"
    by (auto split: option.splits)
  let ?cnt1 = "AList.update x (n - 1) cnt"
  let ?ag1 = "if n - 1 = 0 then ag @ [conclusion_literal x] else ag"
  from Cons.prems n have "process_clauses xs ?cnt1 ?ag1 = Inr (cnt', ag')"
    by (simp add: Let_def)
  then have "map_of cnt' c = map_option (\<lambda>n. n - int (count_list xs c)) (map_of ?cnt1 c)"
    by (rule Cons.IH)
  then show ?case using n by (cases "map_of cnt c") (auto simp: update_conv')
qed

lemma process_clauses_agenda:
  "process_clauses xs cnt ag = Inr (cnt', ag') \<Longrightarrow>
   \<exists>new. ag' = ag @ new \<and>
     set new = {conclusion_literal c | c.
                  c \<in> set xs \<and> (\<exists>n. map_of cnt c = Some n \<and> 1 \<le> n \<and> n \<le> int (count_list xs c))}"
proof (induction xs arbitrary: cnt ag)
  case Nil
  then show ?case by simp
next
  case (Cons x xs)
  from Cons.prems obtain n where n: "map_of cnt x = Some n"
    by (auto split: option.splits)
  let ?cnt1 = "AList.update x (n - 1) cnt"
  let ?ag1 = "if n - 1 = 0 then ag @ [conclusion_literal x] else ag"
  from Cons.prems n have "process_clauses xs ?cnt1 ?ag1 = Inr (cnt', ag')"
    by (simp add: Let_def)
  from Cons.IH [OF this] obtain new where
    ag': "ag' = ?ag1 @ new" and
    new: "set new = {conclusion_literal c | c.
             c \<in> set xs \<and> (\<exists>m. map_of ?cnt1 c = Some m \<and> 1 \<le> m \<and> m \<le> int (count_list xs c))}"
    by blast
  let ?new = "(if n - 1 = 0 then [conclusion_literal x] else []) @ new"
  have a: "ag' = ag @ ?new" using ag' by simp
  have x0: "x \<notin> set xs \<Longrightarrow> count_list xs x = 0" by simp
  have "set ?new = {conclusion_literal c | c.
          c \<in> set (x # xs) \<and> (\<exists>m. map_of cnt c = Some m \<and> 1 \<le> m \<and> m \<le> int (count_list (x # xs) c))}"
    (is "?L = ?R")
  proof (intro set_eqI iffI)
    have Rintro: "\<And>c m. c \<in> set (x # xs) \<Longrightarrow> map_of cnt c = Some m \<Longrightarrow> 1 \<le> m
        \<Longrightarrow> m \<le> int (count_list (x # xs) c) \<Longrightarrow> conclusion_literal c \<in> ?R"
      by blast
    fix y assume "y \<in> ?L"
    then consider "n = 1" "y = conclusion_literal x" | "y \<in> set new"
      by (auto split: if_splits)
    then show "y \<in> ?R"
    proof cases
      case 1
      then show ?thesis using n Rintro [of x n] by simp
    next
      case 2
      then obtain c m where c: "y = conclusion_literal c" "c \<in> set xs"
        "map_of ?cnt1 c = Some m" "1 \<le> m" "m \<le> int (count_list xs c)"
        using new by auto
      show ?thesis
      proof (cases "c = x")
        case True
        then have "m = n - 1" using c by (simp add: update_conv')
        then show ?thesis using c True n Rintro [of x n] by simp
      next
        case False
        then have "map_of cnt c = Some m" using c by (simp add: update_conv')
        then show ?thesis using c False Rintro [of c m] by simp
      qed
    qed
  next
    fix y assume "y \<in> ?R"
    then obtain c m where c: "y = conclusion_literal c" "c \<in> set (x # xs)"
      "map_of cnt c = Some m" "1 \<le> m" "m \<le> int (count_list (x # xs) c)"
      by auto
    show "y \<in> ?L"
    proof (cases "c = x")
      case True
      then have mn: "m = n" using c n by simp
      show ?thesis
      proof (cases "n = 1")
        case True
        then show ?thesis using c \<open>c = x\<close> by simp
      next
        case False
        then have "1 \<le> n - 1" "n - 1 \<le> int (count_list xs x)"
          using c mn True by auto
        moreover from this have "x \<in> set xs" using x0 by fastforce
        moreover have "map_of ?cnt1 x = Some (n - 1)" by (simp add: update_conv')
        ultimately have "conclusion_literal x \<in> set new" using new by blast
        then show ?thesis using c True by simp
      qed
    next
      case False
      then have "map_of ?cnt1 c = Some m" "c \<in> set xs" "m \<le> int (count_list xs c)"
        using c by (auto simp: update_conv')
      then have "conclusion_literal c \<in> set new" using new c by blast
      then show ?thesis using c by simp
    qed
  qed
  with a show ?case by blast
qed

lemma process_clauses_defined:
  "set xs \<subseteq> dom (map_of cnt) \<Longrightarrow> \<exists>cnt' ag'. process_clauses xs cnt ag = Inr (cnt', ag')"
proof (induction xs arbitrary: cnt ag)
  case Nil
  then show ?case by simp
next
  case (Cons x xs)
  then obtain n where n: "map_of cnt x = Some n" by auto
  have "set xs \<subseteq> dom (map_of (AList.update x (n - 1) cnt))"
    using Cons.prems by (auto simp: update_conv')
  from Cons.IH [OF this] show ?case using n by (simp add: Let_def)
qed

subsection \<open>The closure of the facts under clause firing\<close>

text \<open>
  The symbols derivable from the clauses \<open>cs\<close>: the conclusion of a clause all of whose
  premises are derivable. A clause without premises makes its conclusion derivable
  outright.
\<close>

inductive_set derivable :: "'a Clause list \<Rightarrow> 'a set" for cs :: "'a Clause list" where
  fire: "c \<in> set cs \<Longrightarrow> \<forall>l\<in>set (premise_literals c). l \<in> derivable cs
           \<Longrightarrow> conclusion_literal c \<in> derivable cs"

text \<open>The number of premise occurrences of \<open>c\<close> that are not in \<open>T\<close>.\<close>

definition unknown :: "'a set \<Rightarrow> 'a Clause \<Rightarrow> int" where
  "unknown T c = int (length (filter (\<lambda>l. l \<notin> T) (premise_literals c)))"

text \<open>
  The loop invariant, for the knowledge base built from \<open>cs\<close>: the path lists the
  inferred symbols; inferred symbols and agenda entries are derivable; the count of a
  clause is the number of its premise occurrences not yet inferred; and the conclusion of
  a clause whose premises are all inferred is inferred or waits in the agenda.
\<close>

definition fc_inv :: "'a Clause list \<Rightarrow> 'a fc_state \<Rightarrow> bool" where
  "fc_inv cs s \<longleftrightarrow>
     kb s = kb_of cs \<and>
     set (inference_path s) = inferred_true (inferred s) \<and>
     inferred_true (inferred s) \<subseteq> derivable cs \<and>
     set (agenda s) \<subseteq> derivable cs \<and>
     (\<forall>c\<in>set cs. map_of (count s) c = Some (unknown (inferred_true (inferred s)) c)) \<and>
     (\<forall>c\<in>set cs. set (premise_literals c) \<subseteq> inferred_true (inferred s) \<longrightarrow>
         conclusion_literal c \<in> inferred_true (inferred s) \<union> set (agenda s))"

lemma count_list_copies: "count_list (map (\<lambda>_. d) zs) c = (if d = c then length zs else 0)"
  by (induction zs) auto

lemma count_list_bucket_gen:
  "distinct cs \<Longrightarrow>
   count_list (concat (map (\<lambda>d. map (\<lambda>_. d) (filter (\<lambda>l. l = p) (premise_literals d))) cs)) c
     = (if c \<in> set cs then length (filter (\<lambda>l. l = p) (premise_literals c)) else 0)"
  by (induction cs) (auto simp: count_list_copies)

lemma count_list_bucket:
  "distinct cs \<Longrightarrow> c \<in> set cs \<Longrightarrow>
   count_list (get_clauses_with_premise (kb_of cs) p) c
     = length (filter (\<lambda>l. l = p) (premise_literals c))"
  by (simp add: get_clauses_kb_of count_list_bucket_gen)

lemma set_bucket:
  "set (get_clauses_with_premise (kb_of cs) p) = {c \<in> set cs. p \<in> set (premise_literals c)}"
  by (auto simp: get_clauses_kb_of)

lemma filter_split_count:
  "p \<notin> T \<Longrightarrow>
   length (filter (\<lambda>l. l \<notin> T) ls)
     = length (filter (\<lambda>l. l = p) ls) + length (filter (\<lambda>l. l \<notin> insert p T) ls)"
  by (induction ls) auto

lemma unknown_insert:
  "p \<notin> T \<Longrightarrow>
   unknown T c = int (length (filter (\<lambda>l. l = p) (premise_literals c))) + unknown (insert p T) c"
  by (simp add: unknown_def filter_split_count [of p T])

lemma unknown_zero: "unknown T c = 0 \<longleftrightarrow> set (premise_literals c) \<subseteq> T"
  by (auto simp: unknown_def filter_empty_conv)

lemma unknown_nonneg: "0 \<le> unknown T c"
  by (simp add: unknown_def)

lemma occurs_pos:
  "p \<in> set ls \<Longrightarrow> 1 \<le> int (length (filter (\<lambda>l. l = p) ls))"
  by (induction ls) auto

lemma fc_inv_step:
  assumes inv: "fc_inv cs s" and d: "distinct cs" and st: "fc_step q s = Inr s'"
  shows "fc_inv cs s'"
proof -
  let ?T = "inferred_true (inferred s)"
  obtain p rest where ag: "agenda s = p # rest"
    using st by (cases "agenda s") (auto simp: fc_step_def)
  obtain v inf1 where g: "inferred_get (inferred s) p = (v, inf1)"
    by (cases "inferred_get (inferred s) p")
  note ig = inferred_true_get [OF g]
  have k: "kb s = kb_of cs" using inv by (simp add: fc_inv_def)
  have pd: "p \<in> derivable cs" using inv ag by (simp add: fc_inv_def)
  show ?thesis
  proof (cases v)
    case True
    then have s': "s' = s\<lparr>inferred := inf1, agenda := rest\<rparr>"
      using st ag g by (auto simp: fc_step_def split: if_splits)
    have "p \<in> ?T" using ig True by simp
    then show ?thesis
      using inv ig ag unfolding s' fc_inv_def by auto
  next
    case False
    let ?B = "get_clauses_with_premise (kb_of cs) p"
    from False obtain cnt' ag' where
      pc: "process_clauses ?B (count s) rest = Inr (cnt', ag')"
      and s': "s' = s\<lparr>count := cnt', inferred := AList.update p True inf1,
                       agenda := ag', inference_path := inference_path s @ [p]\<rparr>"
      using st ag g k by (auto simp: fc_step_def split: if_splits sum.splits)
    let ?T' = "insert p ?T"
    have pT: "p \<notin> ?T" using ig False by simp
    have T': "inferred_true (inferred s') = ?T'"
      using s' ig by (simp add: inferred_true_update)
    have Tsub: "?T' \<subseteq> derivable cs" using inv pd by (simp add: fc_inv_def)
    have cnt: "\<And>c. c \<in> set cs \<Longrightarrow> map_of (count s) c = Some (unknown ?T c)"
      using inv by (simp add: fc_inv_def)
    have occ: "\<And>c. c \<in> set cs \<Longrightarrow>
        int (count_list ?B c) = int (length (filter (\<lambda>l. l = p) (premise_literals c)))"
      using d by (simp add: count_list_bucket)
    have cnt': "\<And>c. c \<in> set cs \<Longrightarrow> map_of cnt' c = Some (unknown ?T' c)"
    proof -
      fix c assume c: "c \<in> set cs"
      have "map_of cnt' c = map_option (\<lambda>n. n - int (count_list ?B c)) (map_of (count s) c)"
        using pc by (rule process_clauses_counts)
      then show "map_of cnt' c = Some (unknown ?T' c)"
        using cnt [OF c] occ [OF c] unknown_insert [OF pT, of c] by simp
    qed
    obtain new where ag': "ag' = rest @ new" and
      new: "set new = {conclusion_literal c | c.
              c \<in> set ?B \<and> (\<exists>n. map_of (count s) c = Some n \<and> 1 \<le> n \<and> n \<le> int (count_list ?B c))}"
      using process_clauses_agenda [OF pc] by blast
    have new_sub: "set new \<subseteq> derivable cs"
    proof
      fix y assume "y \<in> set new"
      then obtain c n where c: "y = conclusion_literal c" "c \<in> set ?B"
        "map_of (count s) c = Some n" "1 \<le> n" "n \<le> int (count_list ?B c)"
        using new by auto
      then have ccs: "c \<in> set cs" by (simp add: set_bucket)
      then have "unknown ?T c \<le> int (length (filter (\<lambda>l. l = p) (premise_literals c)))"
        using c cnt [OF ccs] occ [OF ccs] by simp
      then have "unknown ?T' c = 0"
        using unknown_insert [OF pT, of c] unknown_nonneg [of ?T' c] by linarith
      then have "set (premise_literals c) \<subseteq> derivable cs"
        using Tsub by (auto simp: unknown_zero)
      then show "y \<in> derivable cs" using c ccs by (auto intro: derivable.fire)
    qed
    have closed: "\<And>c. c \<in> set cs \<Longrightarrow> set (premise_literals c) \<subseteq> ?T' \<Longrightarrow>
        conclusion_literal c \<in> ?T' \<union> set ag'"
    proof -
      fix c assume ccs: "c \<in> set cs" and sub: "set (premise_literals c) \<subseteq> ?T'"
      show "conclusion_literal c \<in> ?T' \<union> set ag'"
      proof (cases "set (premise_literals c) \<subseteq> ?T")
        case True
        then have "conclusion_literal c \<in> ?T \<union> set (agenda s)"
          using inv ccs by (simp add: fc_inv_def)
        then show ?thesis using ag ag' by auto
      next
        case False
        then have pin: "p \<in> set (premise_literals c)" using sub by auto
        then have cB: "c \<in> set ?B" using ccs by (simp add: set_bucket)
        have "unknown ?T' c = 0" using sub by (simp add: unknown_zero)
        then have "unknown ?T c = int (count_list ?B c)"
          using unknown_insert [OF pT, of c] occ [OF ccs] by simp
        moreover have "1 \<le> int (count_list ?B c)"
          using occ [OF ccs] occurs_pos [OF pin] by simp
        ultimately have "conclusion_literal c \<in> set new"
          using new cB cnt [OF ccs] by auto
        then show ?thesis using ag' by simp
      qed
    qed
    have "set (agenda s') \<subseteq> derivable cs"
      using s' ag' new_sub inv ag by (auto simp: fc_inv_def)
    moreover have "set (inference_path s') = inferred_true (inferred s')"
      using T' s' inv by (simp add: fc_inv_def)
    moreover have "kb s' = kb_of cs" using s' k by simp
    moreover have "count s' = cnt'" "agenda s' = ag'" using s' by simp_all
    ultimately show ?thesis
      using T' Tsub cnt' closed unfolding fc_inv_def by simp
  qed
qed

lemma inferred_true_Nil: "inferred_true [] = {}"
  by (simp add: inferred_true_def)

lemma facts_derivable: "facts (kb_of cs) \<subseteq> derivable cs"
  by (auto simp: facts_kb_of is_fact_def intro: derivable.fire)

lemma fc_inv_init:
  assumes "set fact_order = facts (kb_of cs)"
  shows "fc_inv cs (fc_init (kb_of cs) fact_order)"
proof -
  have "\<And>c. c \<in> set cs \<Longrightarrow> set (premise_literals c) \<subseteq> {} \<Longrightarrow>
          conclusion_literal c \<in> set fact_order"
    using assms by (auto simp: facts_kb_of is_fact_def)
  then show ?thesis
    using assms facts_derivable [of cs]
    by (simp add: fc_inv_def fc_init_def inferred_true_Nil clauses_kb_of map_of_init_count
          unknown_def)
qed

lemma derivable_closed:
  assumes "\<And>c. c \<in> set cs \<Longrightarrow> set (premise_literals c) \<subseteq> T \<Longrightarrow> conclusion_literal c \<in> T"
  shows "derivable cs \<subseteq> T"
proof
  fix x assume "x \<in> derivable cs"
  then show "x \<in> T"
    by (induction rule: derivable.induct) (auto intro: assms)
qed

lemma fc_inv_exit:
  assumes inv: "fc_inv cs s" and st: "fc_step q s = Inl (K, Inr (False, path))"
  shows "set path = derivable cs"
proof -
  from st have ag: "agenda s = []" and p: "path = inference_path s"
    by (auto simp: fc_step_def split: list.splits if_splits prod.splits sum.splits)
  let ?T = "inferred_true (inferred s)"
  have "\<And>c. c \<in> set cs \<Longrightarrow> set (premise_literals c) \<subseteq> ?T \<Longrightarrow> conclusion_literal c \<in> ?T"
    using inv ag by (simp add: fc_inv_def)
  then have "derivable cs \<subseteq> ?T" by (rule derivable_closed)
  moreover have "?T \<subseteq> derivable cs" "set path = ?T"
    using inv p by (simp_all add: fc_inv_def)
  ultimately show ?thesis by simp
qed

lemma fc_loop_closure:
  "fc_inv cs s \<Longrightarrow> distinct cs \<Longrightarrow> fc_loop q s = (K, Inr (False, path))
     \<Longrightarrow> set path = derivable cs"
proof (induction q s rule: fc_loop.induct)
  case (1 q s)
  show ?case
  proof (cases "fc_step q s")
    case (Inl r)
    then have "fc_step q s = Inl (K, Inr (False, path))"
      using "1.prems" by (simp add: fc_loop_Inl)
    with "1.prems"(1) show ?thesis by (rule fc_inv_exit)
  next
    case (Inr s')
    then have "fc_inv cs s'" using "1.prems" by (auto intro: fc_inv_step)
    moreover have "fc_loop q s' = (K, Inr (False, path))"
      using Inr "1.prems" by (simp add: fc_loop_Inr)
    ultimately show ?thesis using Inr "1.prems" "1.IH" by blast
  qed
qed

text \<open>
  Let the knowledge base be built by inserting the clause objects \<open>cs\<close>, each object
  once. When \<open>forward_chaining\<close> returns \<open>entailed = False\<close>, the symbols of the returned
  path are exactly the symbols derivable from the clauses.
\<close>

lemma path_is_closure_when_distinct:
  assumes "distinct cs"
    and "enumerates fact_order (facts (kb_of cs))"
    and "snd (forward_chaining (kb_of cs) fact_order query) = Inr (False, path)"
  shows "set path = derivable cs"
proof -
  have i: "fc_inv cs (fc_init (kb_of cs) fact_order)"
    using assms(2) by (simp add: enumerates_def fc_inv_init)
  obtain K where "forward_chaining (kb_of cs) fact_order query = (K, Inr (False, path))"
    using assms(3) by (cases "forward_chaining (kb_of cs) fact_order query") simp
  then have l: "fc_loop query (fc_init (kb_of cs) fact_order) = (K, Inr (False, path))"
    by (simp add: forward_chaining_def)
  show ?thesis by (rule fc_loop_closure [OF i assms(1) l])
qed

text \<open>
  \<^verbatim>\<open>test_forward_chaining_not_entailed\<close>: for the query \<open>e\<close> the path of the test suite's
  knowledge base holds \<open>a\<close>, \<open>b\<close>, \<open>c\<close> and \<open>d\<close>, the derivable symbols.
\<close>

lemma path_is_closure_example:
  "set [''a'', ''b'', ''c'', ''d'']
     = derivable [Clause_init 0 [] ''a'', Clause_init 1 [''a''] ''b'',
                  Clause_init 2 [''a'', ''b''] ''c'', Clause_init 3 [''b''] ''d'']"
  by (rule path_is_closure_when_distinct [where fact_order = "[''a'']" and query = "''e''"])
     (simp_all add: fc_eval)

subsection \<open>A clause object inserted more than once\<close>

text \<open>The number of premise occurrences of \<open>c\<close> that are in \<open>T\<close>.\<close>

definition known :: "'a set \<Rightarrow> 'a Clause \<Rightarrow> nat" where
  "known T c = length (filter (\<lambda>l. l \<in> T) (premise_literals c))"

text \<open>
  A second invariant, which holds however often a clause object was inserted: an object
  inserted \<open>m\<close> times stands \<open>m\<close> times in each bucket, so its count is the number of
  its premises less \<open>m\<close> times the premise occurrences already inferred; and the
  conclusion of a clause whose count is 0 or less is inferred or waits in the agenda.
\<close>

definition fc_inv_complete :: "'a Clause list \<Rightarrow> 'a fc_state \<Rightarrow> bool" where
  "fc_inv_complete cs s \<longleftrightarrow>
     kb s = kb_of cs \<and>
     set (inference_path s) = inferred_true (inferred s) \<and>
     (\<forall>c\<in>set cs. map_of (count s) c
        = Some (int (length (premise_literals c))
                - int (count_list cs c) * int (known (inferred_true (inferred s)) c))) \<and>
     (\<forall>c\<in>set cs. \<forall>n. map_of (count s) c = Some n \<and> n \<le> 0 \<longrightarrow>
         conclusion_literal c \<in> inferred_true (inferred s) \<union> set (agenda s))"

lemma count_list_bucket_all:
  "count_list (get_clauses_with_premise (kb_of cs) p) c
     = count_list cs c * length (filter (\<lambda>l. l = p) (premise_literals c))"
  unfolding get_clauses_kb_of
  by (induction cs) (auto simp: count_list_copies)

lemma known_insert:
  "p \<notin> T \<Longrightarrow>
   known (insert p T) c = known T c + length (filter (\<lambda>l. l = p) (premise_literals c))"
proof -
  assume p: "p \<notin> T"
  have "length (filter (\<lambda>l. l \<in> insert p T) ls)
          = length (filter (\<lambda>l. l \<in> T) ls) + length (filter (\<lambda>l. l = p) ls)" for ls
    using p by (induction ls) auto
  then show ?thesis by (simp add: known_def)
qed

lemma known_all: "set (premise_literals c) \<subseteq> T \<Longrightarrow> known T c = length (premise_literals c)"
  by (simp add: known_def subset_iff)

lemma count_list_pos: "c \<in> set cs \<Longrightarrow> 1 \<le> count_list cs c"
  by (induction cs) auto

lemma fc_inv_complete_init:
  assumes "set fact_order = facts (kb_of cs)"
  shows "fc_inv_complete cs (fc_init (kb_of cs) fact_order)"
proof -
  have "\<And>c. c \<in> set cs \<Longrightarrow> premise_literals c = [] \<Longrightarrow>
          conclusion_literal c \<in> set fact_order"
    using assms by (auto simp: facts_kb_of is_fact_def)
  then show ?thesis
    by (simp add: fc_inv_complete_def fc_init_def inferred_true_Nil clauses_kb_of
          map_of_init_count known_def)
qed

lemma fc_inv_complete_step:
  assumes inv: "fc_inv_complete cs s" and st: "fc_step q s = Inr s'"
  shows "fc_inv_complete cs s'"
proof -
  let ?T = "inferred_true (inferred s)"
  obtain p rest where ag: "agenda s = p # rest"
    using st by (cases "agenda s") (auto simp: fc_step_def)
  obtain v inf1 where g: "inferred_get (inferred s) p = (v, inf1)"
    by (cases "inferred_get (inferred s) p")
  note ig = inferred_true_get [OF g]
  have k: "kb s = kb_of cs" using inv by (simp add: fc_inv_complete_def)
  show ?thesis
  proof (cases v)
    case True
    then have s': "s' = s\<lparr>inferred := inf1, agenda := rest\<rparr>"
      using st ag g by (auto simp: fc_step_def split: if_splits)
    have "p \<in> ?T" using ig True by simp
    then show ?thesis
      using inv ig ag unfolding s' fc_inv_complete_def by auto
  next
    case False
    let ?B = "get_clauses_with_premise (kb_of cs) p"
    from False obtain cnt' ag' where
      pc: "process_clauses ?B (count s) rest = Inr (cnt', ag')"
      and s': "s' = s\<lparr>count := cnt', inferred := AList.update p True inf1,
                       agenda := ag', inference_path := inference_path s @ [p]\<rparr>"
      using st ag g k by (auto simp: fc_step_def split: if_splits sum.splits)
    let ?T' = "insert p ?T"
    have pT: "p \<notin> ?T" using ig False by simp
    have T': "inferred_true (inferred s') = ?T'"
      using s' ig by (simp add: inferred_true_update)
    have cnt: "\<And>c. c \<in> set cs \<Longrightarrow> map_of (count s) c
        = Some (int (length (premise_literals c)) - int (count_list cs c) * int (known ?T c))"
      using inv by (simp add: fc_inv_complete_def)
    have step: "\<And>c. map_of cnt' c
        = map_option (\<lambda>n. n - int (count_list ?B c)) (map_of (count s) c)"
      using pc by (rule process_clauses_counts)
    have cnt': "\<And>c. c \<in> set cs \<Longrightarrow> map_of cnt' c
        = Some (int (length (premise_literals c)) - int (count_list cs c) * int (known ?T' c))"
    proof -
      fix c assume c: "c \<in> set cs"
      show "map_of cnt' c
        = Some (int (length (premise_literals c)) - int (count_list cs c) * int (known ?T' c))"
        using step [of c] cnt [OF c] known_insert [OF pT, of c]
        by (simp add: count_list_bucket_all algebra_simps)
    qed
    obtain new where ag': "ag' = rest @ new" and
      new: "set new = {conclusion_literal c | c.
              c \<in> set ?B \<and> (\<exists>n. map_of (count s) c = Some n \<and> 1 \<le> n \<and> n \<le> int (count_list ?B c))}"
      using process_clauses_agenda [OF pc] by blast
    have pend: "\<And>c n'. c \<in> set cs \<Longrightarrow> map_of cnt' c = Some n' \<Longrightarrow> n' \<le> 0 \<Longrightarrow>
        conclusion_literal c \<in> ?T' \<union> set ag'"
    proof -
      fix c n' assume ccs: "c \<in> set cs" and n': "map_of cnt' c = Some n'" "n' \<le> 0"
      obtain n where n: "map_of (count s) c = Some n" using cnt [OF ccs] by simp
      then have nn: "n' = n - int (count_list ?B c)" using step [of c] n' by simp
      show "conclusion_literal c \<in> ?T' \<union> set ag'"
      proof (cases "n \<le> 0")
        case True
        then have "conclusion_literal c \<in> ?T \<union> set (agenda s)"
          using inv ccs n by (auto simp: fc_inv_complete_def)
        then show ?thesis using ag ag' by auto
      next
        case False
        then have b: "1 \<le> n" "n \<le> int (count_list ?B c)" using nn n' by simp_all
        then have "count_list ?B c \<noteq> 0" by auto
        then have "c \<in> set ?B" by (simp add: count_list_0_iff)
        then have "conclusion_literal c \<in> set new" using new n b by blast
        then show ?thesis using ag' by simp
      qed
    qed
    have "set (inference_path s') = inferred_true (inferred s')"
      using T' s' inv by (simp add: fc_inv_complete_def)
    moreover have "kb s' = kb_of cs" using s' k by simp
    moreover have "count s' = cnt'" "agenda s' = ag'" using s' by simp_all
    ultimately show ?thesis
      using T' cnt' pend unfolding fc_inv_complete_def by simp
  qed
qed

lemma fc_inv_complete_exit:
  assumes inv: "fc_inv_complete cs s" and st: "fc_step q s = Inl (K, Inr (False, path))"
  shows "derivable cs \<subseteq> set path"
proof -
  from st have ag: "agenda s = []" and p: "path = inference_path s"
    by (auto simp: fc_step_def split: list.splits if_splits prod.splits sum.splits)
  let ?T = "inferred_true (inferred s)"
  have "\<And>c. c \<in> set cs \<Longrightarrow> set (premise_literals c) \<subseteq> ?T \<Longrightarrow> conclusion_literal c \<in> ?T"
  proof -
    fix c assume ccs: "c \<in> set cs" and sub: "set (premise_literals c) \<subseteq> ?T"
    let ?len = "int (length (premise_literals c))"
    let ?n = "?len - int (count_list cs c) * int (known ?T c)"
    have n: "map_of (count s) c = Some ?n"
      using inv ccs by (simp add: fc_inv_complete_def)
    have "1 \<le> int (count_list cs c)" using count_list_pos [OF ccs] by simp
    then have "?len * 1 \<le> int (count_list cs c) * ?len"
      by (simp add: mult_le_cancel_right1)
    then have "?n \<le> 0" using known_all [OF sub] by simp
    then show "conclusion_literal c \<in> ?T"
      using inv ccs n ag by (auto simp: fc_inv_complete_def)
  qed
  then have "derivable cs \<subseteq> ?T" by (rule derivable_closed)
  moreover have "set path = ?T" using inv p by (simp add: fc_inv_complete_def)
  ultimately show ?thesis by simp
qed

lemma fc_loop_complete:
  "fc_inv_complete cs s \<Longrightarrow> fc_loop q s = (K, Inr (False, path))
     \<Longrightarrow> derivable cs \<subseteq> set path"
proof (induction q s rule: fc_loop.induct)
  case (1 q s)
  show ?case
  proof (cases "fc_step q s")
    case (Inl r)
    then have "fc_step q s = Inl (K, Inr (False, path))"
      using "1.prems" by (simp add: fc_loop_Inl)
    with "1.prems"(1) show ?thesis by (rule fc_inv_complete_exit)
  next
    case (Inr s')
    have i: "fc_inv_complete cs s'" using "1.prems"(1) Inr by (rule fc_inv_complete_step)
    have l: "fc_loop q s' = (K, Inr (False, path))"
      using Inr "1.prems" by (simp add: fc_loop_Inr)
    show ?thesis by (rule "1.IH" [OF Inr i l])
  qed
qed

text \<open>
  For every knowledge base built by insertions, also with an object inserted more than
  once: when a run returns \<open>entailed = False\<close>, every derivable symbol is on its path.
\<close>

lemma closure_subset_path:
  assumes "enumerates fact_order (facts (kb_of cs))"
    and "snd (forward_chaining (kb_of cs) fact_order query) = Inr (False, path)"
  shows "derivable cs \<subseteq> set path"
proof -
  have i: "fc_inv_complete cs (fc_init (kb_of cs) fact_order)"
    using assms(1) by (simp add: enumerates_def fc_inv_complete_init)
  obtain K where "forward_chaining (kb_of cs) fact_order query = (K, Inr (False, path))"
    using assms(2) by (cases "forward_chaining (kb_of cs) fact_order query") simp
  then have l: "fc_loop query (fc_init (kb_of cs) fact_order) = (K, Inr (False, path))"
    by (simp add: forward_chaining_def)
  show ?thesis by (rule fc_loop_complete [OF i l])
qed

lemma aliased_derivable:
  "x \<in> derivable [Clause_init 0 [] ''a'', Clause_init 1 [''a'', ''b''] ''c'',
                   Clause_init 1 [''a'', ''b''] ''c''] \<Longrightarrow> x = ''a''"
  by (induction rule: derivable.induct) (auto simp: Clause_init_def)

text \<open>
  C1. The claim: whenever a run returns \<open>entailed = False\<close>, the symbols of its path are
  exactly the symbols derivable from the clauses. The code breaks it when one clause
  object is inserted twice. \<^verbatim>\<open>count\<close> has one entry per object, the buckets one per
  insertion: with the fact \<open>a\<close> and the object \<open>a \<and> b \<rightarrow> c\<close> inserted twice, inferring \<open>a\<close>
  takes the count of the clause from 2 to 0, the test \<^verbatim>\<open>count[clause] == 0\<close> succeeds
  with \<open>b\<close> unknown, and the run for the query \<open>z\<close> returns \<open>entailed = False\<close> with the
  path \<open>a, c\<close>, although \<open>c\<close> is not derivable.
\<close>

theorem aliased_clause_unsound_path:
  "enumerates [''a'']
     (facts (kb_of [Clause_init 0 [] ''a'', Clause_init 1 [''a'', ''b''] ''c'',
                    Clause_init 1 [''a'', ''b''] ''c'']))
   \<and> snd (forward_chaining
            (kb_of [Clause_init 0 [] ''a'', Clause_init 1 [''a'', ''b''] ''c'',
                    Clause_init 1 [''a'', ''b''] ''c'']) [''a''] ''z'')
       = Inr (False, [''a'', ''c''])
   \<and> ''c'' \<notin> derivable [Clause_init 0 [] ''a'', Clause_init 1 [''a'', ''b''] ''c'',
                           Clause_init 1 [''a'', ''b''] ''c'']"
proof -
  have "''c'' \<notin> derivable [Clause_init 0 [] ''a'', Clause_init 1 [''a'', ''b''] ''c'',
                           Clause_init 1 [''a'', ''b''] ''c'']"
    using aliased_derivable [of "''c''"] by auto
  then show ?thesis by (simp add: fc_eval)
qed

text \<open>
  On the same knowledge base the query \<open>c\<close> is answered \<open>entailed = True\<close>, against the
  docstring of \<^verbatim>\<open>forward_chaining\<close>: \<open>c\<close> is not entailed.
\<close>

lemma aliased_query_c:
  "snd (forward_chaining
          (kb_of [Clause_init 0 [] ''a'', Clause_init 1 [''a'', ''b''] ''c'',
                  Clause_init 1 [''a'', ''b''] ''c'']) [''a''] ''c'')
     = Inr (True, [''a'', ''c''])"
  by (simp add: fc_eval)

text \<open>
  Inserting an object twice does not always show: the fact \<open>a\<close> and \<open>a \<rightarrow> b\<close>, each
  inserted twice, give the path \<open>a, b\<close>.
\<close>

lemma aliased_single_premise:
  "snd (forward_chaining
          (kb_of [Clause_init 0 [] ''a'', Clause_init 0 [] ''a'',
                  Clause_init 1 [''a''] ''b'', Clause_init 1 [''a''] ''b'']) [''a''] ''z'')
     = Inr (False, [''a'', ''b''])"
  by (simp add: fc_eval)

subsection \<open>A query that is a fact\<close>

text \<open>Every clause of every bucket is a key of \<^verbatim>\<open>count\<close>: no lookup raises.\<close>

definition keys_ok :: "'a fc_state \<Rightarrow> bool" where
  "keys_ok s = (\<forall>p. set (get_clauses_with_premise (kb s) p) \<subseteq> dom (map_of (count s)))"

lemma process_clauses_dom:
  "process_clauses xs cnt ag = Inr (cnt', ag') \<Longrightarrow> dom (map_of cnt') = dom (map_of cnt)"
  using process_clauses_counts [of xs cnt ag cnt' ag']
  by (auto simp: dom_def)

lemma keys_ok_init: "keys_ok (fc_init (kb_of cs) fact_order)"
  by (auto simp: keys_ok_def fc_init_def clauses_kb_of map_of_init_count set_bucket dom_def)

lemma fc_loop_facts_before_query:
  "keys_ok s \<Longrightarrow> agenda s = xs @ q # ys \<Longrightarrow> q \<notin> set xs \<Longrightarrow> distinct xs
     \<Longrightarrow> set xs \<inter> inferred_true (inferred s) = {}
     \<Longrightarrow> fc_loop q s = (kb s, Inr (True, inference_path s @ xs @ [q]))"
proof (induction xs arbitrary: s ys)
  case Nil
  then have "fc_step q s = Inl (kb s, Inr (True, inference_path s @ [q]))"
    by (simp add: fc_step_def)
  then show ?case by (simp add: fc_loop_Inl)
next
  case (Cons x xs)
  obtain v inf1 where g: "inferred_get (inferred s) x = (v, inf1)"
    by (cases "inferred_get (inferred s) x")
  note ig = inferred_true_get [OF g]
  have v: "\<not> v" using ig Cons.prems by auto
  have xq: "x \<noteq> q" using Cons.prems by auto
  have "set (get_clauses_with_premise (kb s) x) \<subseteq> dom (map_of (count s))"
    using Cons.prems by (simp add: keys_ok_def)
  then obtain cnt' ag' where
    pc: "process_clauses (get_clauses_with_premise (kb s) x) (count s) (xs @ q # ys) = Inr (cnt', ag')"
    using process_clauses_defined by blast
  obtain new where ag': "ag' = (xs @ q # ys) @ new"
    using process_clauses_agenda [OF pc] by blast
  let ?s' = "s\<lparr>count := cnt', inferred := AList.update x True inf1,
                agenda := ag', inference_path := inference_path s @ [x]\<rparr>"
  have st: "fc_step q s = Inr ?s'"
    using Cons.prems(2) g v xq pc by (simp add: fc_step_def)
  have "keys_ok ?s'"
    using Cons.prems process_clauses_dom [OF pc] by (simp add: keys_ok_def)
  moreover have "agenda ?s' = xs @ q # (ys @ new)" using ag' by simp
  moreover have "q \<notin> set xs" "distinct xs" using Cons.prems by simp_all
  moreover have "set xs \<inter> inferred_true (inferred ?s') = {}"
    using Cons.prems ig by (auto simp: inferred_true_update)
  ultimately have "fc_loop q ?s' = (kb ?s', Inr (True, inference_path ?s' @ xs @ [q]))"
    by (rule Cons.IH)
  then show ?case using st by (simp add: fc_loop_Inr)
qed

text \<open>
  C3, as the code has it. When the query is a fact of the knowledge base, the run returns
  \<open>entailed = True\<close>, and the path lists the facts that the enumeration of the facts set
  yields before the query, in that order, followed by the query. It is the one-element
  list of the query when the query comes first in the enumeration, as it does when it is
  the only fact.
\<close>

theorem fact_query_path:
  assumes "query \<in> facts (kb_of cs)" and "enumerates fact_order (facts (kb_of cs))"
  shows "forward_chaining (kb_of cs) fact_order query
           = (kb_of cs, Inr (True, takeWhile (\<lambda>x. x \<noteq> query) fact_order @ [query]))"
proof -
  let ?xs = "takeWhile (\<lambda>x. x \<noteq> query) fact_order"
  let ?s = "fc_init (kb_of cs) fact_order"
  from assms have q: "query \<in> set fact_order" and d: "distinct fact_order"
    by (simp_all add: enumerates_def)
  then obtain ys where ys: "dropWhile (\<lambda>x. x \<noteq> query) fact_order = query # ys"
    by (metis (mono_tags, lifting) dropWhile_eq_Nil_conv hd_dropWhile list.exhaust_sel)
  then have "fact_order = ?xs @ query # ys"
    by (metis takeWhile_dropWhile_id)
  then have a: "agenda ?s = ?xs @ query # ys" by (simp add: fc_init_def)
  have n: "query \<notin> set ?xs" by (auto dest: set_takeWhileD)
  have dx: "distinct ?xs" using d by (rule distinct_takeWhile)
  have e: "set ?xs \<inter> inferred_true (inferred ?s) = {}"
    by (simp add: fc_init_def inferred_true_Nil)
  have "fc_loop query ?s = (kb ?s, Inr (True, inference_path ?s @ ?xs @ [query]))"
    using keys_ok_init a n dx e by (rule fc_loop_facts_before_query)
  then show ?thesis by (simp add: forward_chaining_def fc_init_def)
qed

theorem fact_query_path_witness:
  "forward_chaining (kb_of [Clause_init 0 [] ''q'', Clause_init 1 [''q''] ''r'']) [''q''] ''q''
     = (kb_of [Clause_init 0 [] ''q'', Clause_init 1 [''q''] ''r''], Inr (True, [''q'']))"
proof -
  let ?cs = "[Clause_init 0 [] ''q'', Clause_init 1 [''q''] ''r'']"
  have h1: "''q'' \<in> facts (kb_of ?cs)"
    by (simp add: fc_eval)
  have h2: "enumerates [''q''] (facts (kb_of ?cs))"
    by (simp add: fc_eval)
  show ?thesis using fact_query_path [OF h1 h2] by simp
qed

text \<open>
  C3 as stated fails when the facts set is enumerated with another fact before the
  query: that fact is popped, inferred and put on the path first.
\<close>

theorem fact_query_counterexample:
  "''q'' \<in> facts (kb_of [Clause_init 0 [] ''a'', Clause_init 1 [] ''q''])
   \<and> enumerates [''a'', ''q''] (facts (kb_of [Clause_init 0 [] ''a'', Clause_init 1 [] ''q'']))
   \<and> snd (forward_chaining (kb_of [Clause_init 0 [] ''a'', Clause_init 1 [] ''q''])
             [''a'', ''q''] ''q'')
       = Inr (True, [''a'', ''q''])"
  by (auto simp: fc_eval)

section \<open>Forward chaining with a trace\<close>

text \<open>
  The dictionaries \<^verbatim>\<open>forward_chaining_with_trace\<close> appends to \<^verbatim>\<open>trace\<close>, one
  constructor per \<^verbatim>\<open>action\<close>. The first field is \<^verbatim>\<open>step\<close>; the others are the values the
  dictionary stores: agenda and \<^verbatim>\<open>inferred\<close> snapshots, the popped symbol, \<^verbatim>\<open>str(clause)\<close>
  and the old and new counts.
\<close>

datatype 'a trace_record =
    Initialize nat "'a list" "('a \<times> bool) list" "(string \<times> int) list"
  | Pop_from_agenda nat 'a "'a list"
  | Found_query nat 'a
  | Infer nat 'a "('a \<times> bool) list"
  | Update_count nat string int int
  | Add_to_agenda nat 'a string "'a list"
  | Agenda_empty nat

text \<open>The variables of a traced run: those of a plain run, \<^verbatim>\<open>trace\<close> and \<^verbatim>\<open>step\<close>.\<close>

record 'a fct_state = "'a fc_state" +
  trace :: "'a trace_record list"
  step :: nat

type_synonym 'a fct_result =
  "'a KnowledgeBase \<times> (fc_error + bool \<times> 'a list \<times> 'a trace_record list)"

text \<open>
  \<^verbatim>\<open>{str(k): v for k, v in count.items()}\<close>. \<^verbatim>\<open>Clause.__str__\<close> writes characters beyond
  the 8-bit range; the functions below take it as the argument \<open>clause_str\<close>.
\<close>

definition count_snapshot ::
  "('a Clause \<Rightarrow> string) \<Rightarrow> ('a Clause \<times> int) list \<Rightarrow> (string \<times> int) list" where
  "count_snapshot clause_str cnt = fold (\<lambda>(k, v) d. AList.update (clause_str k) v d) cnt []"

text \<open>The \<^verbatim>\<open>for clause in affected_clauses\<close> loop.\<close>

fun process_clauses_trace ::
  "('a Clause \<Rightarrow> string) \<Rightarrow> 'a Clause list \<Rightarrow> ('a Clause \<times> int) list \<Rightarrow> 'a list
     \<Rightarrow> 'a trace_record list \<Rightarrow> nat
     \<Rightarrow> fc_error + ('a Clause \<times> int) list \<times> 'a list \<times> 'a trace_record list \<times> nat" where
  "process_clauses_trace clause_str [] cnt ag tr n = Inr (cnt, ag, tr, n)"
| "process_clauses_trace clause_str (clause # rest) cnt ag tr n =
     (case map_of cnt clause of
        None \<Rightarrow> Inl KeyError
      | Some old_count \<Rightarrow>
          let cnt' = AList.update clause (old_count - 1) cnt;
              new_count = old_count - 1;
              tr1 = tr @ [Update_count n (clause_str clause) old_count new_count];
              n1 = n + 1
          in if new_count = 0 then
               let conclusion = conclusion_literal clause;
                   ag' = ag @ [conclusion];
                   tr2 = tr1 @ [Add_to_agenda n1 conclusion (clause_str clause) ag']
               in process_clauses_trace clause_str rest cnt' ag' tr2 (n1 + 1)
             else process_clauses_trace clause_str rest cnt' ag tr1 n1)"

text \<open>One iteration of the \<^verbatim>\<open>while agenda:\<close> loop of the traced function.\<close>

definition fct_step ::
  "('a Clause \<Rightarrow> string) \<Rightarrow> 'a \<Rightarrow> 'a fct_state \<Rightarrow> 'a fct_result + 'a fct_state" where
  "fct_step clause_str query s =
     (case agenda s of
        [] \<Rightarrow> Inl (kb s, Inr (False, inference_path s, trace s @ [Agenda_empty (step s)]))
      | p # rest \<Rightarrow>
          let tr1 = trace s @ [Pop_from_agenda (step s) p rest];
              n1 = step s + 1
          in if p = query
             then Inl (kb s, Inr (True, inference_path s @ [p], tr1 @ [Found_query n1 p]))
             else
               (case inferred_get (inferred s) p of
                  (v, inf1) \<Rightarrow>
                    if \<not> v then
                      let inf2 = AList.update p True inf1;
                          tr2 = tr1 @ [Infer n1 p (filter snd inf2)]
                      in (case process_clauses_trace clause_str
                                 (get_clauses_with_premise (kb s) p) (count s) rest tr2 (n1 + 1) of
                            Inl e \<Rightarrow> Inl (kb s, Inl e)
                          | Inr (cnt', ag', tr3, n3) \<Rightarrow>
                              Inr (s\<lparr>count := cnt', inferred := inf2, agenda := ag',
                                     inference_path := inference_path s @ [p],
                                     trace := tr3, step := n3\<rparr>))
                    else Inr (s\<lparr>inferred := inf1, agenda := rest, trace := tr1, step := n1\<rparr>)))"

text \<open>The verdict and the path of a traced result.\<close>

definition without_trace :: "'a fct_result \<Rightarrow> 'a fc_result" where
  "without_trace r = (fst r, map_sum id (\<lambda>(entailed, path, tr). (entailed, path)) (snd r))"

text \<open>
  Each iteration of the traced loop, seen without \<^verbatim>\<open>trace\<close> and \<^verbatim>\<open>step\<close>, is the
  iteration of the plain loop.
\<close>

lemma process_clauses_trace_sim:
  "map_sum id (\<lambda>(cnt', ag', tr', n'). (cnt', ag')) (process_clauses_trace clause_str xs cnt ag tr n)
     = process_clauses xs cnt ag"
  by (induction xs arbitrary: cnt ag tr n) (auto simp: Let_def split: option.splits)

lemma fct_step_sim:
  "map_sum without_trace fc_state.truncate (fct_step clause_str q s)
     = fc_step q (fc_state.truncate s)"
proof (cases "agenda s")
  case Nil
  then show ?thesis
    by (simp add: fct_step_def fc_step_def without_trace_def fc_state.truncate_def)
next
  case (Cons p rest)
  obtain v inf1 where g: "inferred_get (inferred s) p = (v, inf1)"
    by (cases "inferred_get (inferred s) p")
  let ?B = "get_clauses_with_premise (kb s) p"
  let ?tr1 = "trace s @ [Pop_from_agenda (step s) p rest]"
  let ?tr2 = "?tr1 @ [Infer (step s + 1) p (filter snd (AList.update p True inf1))]"
  have sim: "map_sum id (\<lambda>(cnt', ag', tr', n'). (cnt', ag'))
               (process_clauses_trace clause_str ?B (count s) rest ?tr2 (step s + 1 + 1))
             = process_clauses ?B (count s) rest"
    by (rule process_clauses_trace_sim)
  show ?thesis
  proof (cases "process_clauses_trace clause_str ?B (count s) rest ?tr2 (step s + 1 + 1)")
    case (Inl e)
    then have "process_clauses ?B (count s) rest = Inl e" using sim by simp
    with Inl Cons g show ?thesis
      by (simp add: fct_step_def fc_step_def without_trace_def fc_state.truncate_def Let_def)
  next
    case (Inr r)
    obtain cnt' ag' tr3 n3 where r: "r = (cnt', ag', tr3, n3)" by (cases r) auto
    with Inr have "process_clauses ?B (count s) rest = Inr (cnt', ag')" using sim by simp
    with Inr r Cons g show ?thesis
      by (simp add: fct_step_def fc_step_def without_trace_def fc_state.truncate_def Let_def)
  qed
qed

lemma fct_step_Inr:
  "fct_step clause_str q s = Inr s' \<Longrightarrow> fc_step q (fc_state.truncate s) = Inr (fc_state.truncate s')"
  using fct_step_sim [of clause_str q s] by simp

lemma fct_step_Inl:
  "fct_step clause_str q s = Inl r \<Longrightarrow> fc_step q (fc_state.truncate s) = Inl (without_trace r)"
  using fct_step_sim [of clause_str q s] by simp

function fct_loop :: "('a Clause \<Rightarrow> string) \<Rightarrow> 'a \<Rightarrow> 'a fct_state \<Rightarrow> 'a fct_result" where
  "fct_loop clause_str query s =
     (case fct_step clause_str query s of
        Inl r \<Rightarrow> r
      | Inr s' \<Rightarrow> fct_loop clause_str query s')"
  by pat_completeness auto
termination
  by (relation "inv_image (less_than <*lex*> less_than)
                  (\<lambda>(f, q, s). fc_measure (fc_state.truncate s))")
     (auto dest!: fct_step_Inr fc_step_decreases)

declare fct_loop.simps [simp del]

definition forward_chaining_with_trace ::
  "('a Clause \<Rightarrow> string) \<Rightarrow> 'a KnowledgeBase \<Rightarrow> 'a list \<Rightarrow> 'a \<Rightarrow> 'a fct_result" where
  "forward_chaining_with_trace clause_str K fact_order query =
     (let cnt = init_count (clauses K);
          inf = [];
          tr = [Initialize 0 fact_order (filter snd inf) (count_snapshot clause_str cnt)]
      in fct_loop clause_str query
           \<lparr>kb = K, count = cnt, inferred = inf, agenda = fact_order, inference_path = [],
            trace = tr, step = 1\<rparr>)"

lemma fct_loop_sim:
  "without_trace (fct_loop clause_str q s) = fc_loop q (fc_state.truncate s)"
proof (induction clause_str q s rule: fct_loop.induct)
  case (1 clause_str q s)
  show ?case
  proof (cases "fct_step clause_str q s")
    case (Inl r)
    then show ?thesis
      by (subst fct_loop.simps) (simp add: fct_step_Inl fc_loop_Inl)
  next
    case (Inr s')
    then have "without_trace (fct_loop clause_str q s') = fc_loop q (fc_state.truncate s')"
      by (rule "1.IH")
    with Inr show ?thesis
      by (subst fct_loop.simps) (simp add: fct_step_Inr fc_loop_Inr)
  qed
qed

text \<open>
  C8. For every knowledge base, enumeration of the facts and query, the traced function
  returns the verdict and the path of \<open>forward_chaining\<close>, element for element; it
  raises where \<open>forward_chaining\<close> raises. The trace has no influence on either.
\<close>

theorem trace_variant_agrees:
  "without_trace (forward_chaining_with_trace clause_str K fact_order query)
     = forward_chaining K fact_order query"
  by (simp add: forward_chaining_with_trace_def forward_chaining_def fct_loop_sim
        fc_state.truncate_def fc_init_def Let_def)

text \<open>
  \<^verbatim>\<open>test_forward_chaining_with_trace\<close>: on the knowledge base of the test suite and the
  query \<open>c\<close> the path is \<open>a, b, c\<close>, the trace starts with the initial record and ends
  with the record of the query found, at step 13.
\<close>

lemma trace_example:
  "\<exists>tr. snd (forward_chaining_with_trace clause_str example_kb [''a''] ''c'')
           = Inr (True, [''a'', ''b'', ''c''], tr)
        \<and> hd tr = Initialize 0 [''a''] []
                    (count_snapshot clause_str (init_count (clauses example_kb)))
        \<and> last tr = Found_query 13 ''c''"
  by (simp add: example_kb_def forward_chaining_with_trace_def fct_loop.simps fct_step_def
        fc_eval Let_def)

section \<open>Further runs of the test suite\<close>

text \<open>
  \<^verbatim>\<open>test_cyclic_knowledge_base\<close>: the fact \<open>a\<close> with \<open>a \<rightarrow> b\<close>, \<open>b \<rightarrow> c\<close> and \<open>c \<rightarrow> a\<close>. The
  second \<open>a\<close>, pushed by the last clause, is popped and dropped, and the run for the
  query \<open>d\<close> ends with \<open>a, b, c\<close> inferred.
\<close>

lemma cyclic_example:
  "snd (forward_chaining
          (kb_of [Clause_init 0 [] ''a'', Clause_init 1 [''a''] ''b'',
                  Clause_init 2 [''b''] ''c'', Clause_init 3 [''c''] ''a''])
          [''a''] ''d'')
     = Inr (False, [''a'', ''b'', ''c''])"
  by (simp add: fc_eval)

text \<open>\<^verbatim>\<open>test_empty_knowledge_base\<close>: no fact, so the loop is not entered.\<close>

lemma empty_example:
  "forward_chaining KnowledgeBase_init [] ''a'' = (KnowledgeBase_init, Inr (False, []))"
  by (simp add: fc_eval)

text \<open>
  \<^verbatim>\<open>test_forward_chaining_entailed\<close>, the query \<open>c\<close>: the path is \<open>a, b, c\<close>, as the test
  expects.
\<close>

lemma query_c_example:
  "snd (forward_chaining example_kb [''a''] ''c'') = Inr (True, [''a'', ''b'', ''c''])"
  by (simp add: example_kb_def fc_eval)

end
